theory Spec2Isabelle
  imports Main "HOL-Library.Word"
begin

section \<open>Exceptions\<close>

text \<open>
  The program throws \<open>std::runtime_error\<close>, its own subclass \<open>UsbLibException\<close> and
  \<open>std::out_of_range\<close>. Each carries the message that \<open>what()\<close> returns. A function that
  may throw returns \<open>exn + 'a\<close>, with \<open>Inl\<close> for the exception.
\<close>

datatype exn = RuntimeError string | UsbLibException string | OutOfRange string

fun what :: "exn \<Rightarrow> string" where
  "what (RuntimeError s) = s"
| "what (UsbLibException s) = s"
| "what (OutOfRange s) = s"

section \<open>The identifier parser\<close>

subsection \<open>The C library's \<open>strtoul\<close>\<close>

text \<open>
  \<open>parse_argv1\<close> converts each half with \<open>strtoul(s, &ptr, 16)\<close>. The model follows the
  C standard: white space of the C locale is skipped, one sign is accepted, base 16
  accepts a \<open>0x\<close> or \<open>0X\<close> prefix when a hexadecimal digit follows it, and the longest run
  of digits of the base is converted. The result is the value as an \<open>unsigned long\<close>
  (64 bits on the LP64 targets that libusb's Linux backend runs on), negated in that type
  after a minus sign and \<open>ULONG_MAX\<close> on overflow, together with the number of characters
  consumed: the end pointer is \<open>nptr\<close> plus that number, and it is \<open>nptr\<close> itself when there
  is no digit to convert. A character list ends where the C string has its terminator;
  the terminator is neither white space nor a digit, so a NUL inside the list stops the
  conversion as it does in C. Base 0 (auto-detection) is not modelled: the program never
  asks for it.
\<close>

definition isspace :: "char \<Rightarrow> bool" where
  "isspace c = (c = CHR '' '' \<or> (9 \<le> (of_char c :: nat) \<and> (of_char c :: nat) \<le> 13))"

definition digit_value :: "char \<Rightarrow> nat option" where
  "digit_value c =
     (let n = (of_char c :: nat) in
      if 48 \<le> n \<and> n \<le> 57 then Some (n - 48)
      else if 97 \<le> n \<and> n \<le> 122 then Some (n - 87)
      else if 65 \<le> n \<and> n \<le> 90 then Some (n - 55)
      else None)"

definition is_digit :: "nat \<Rightarrow> char \<Rightarrow> bool" where
  "is_digit base c = (case digit_value c of None \<Rightarrow> False | Some v \<Rightarrow> v < base)"

definition accumulate :: "nat \<Rightarrow> string \<Rightarrow> nat" where
  "accumulate base ds =
     foldl (\<lambda>a c. case digit_value c of None \<Rightarrow> a | Some v \<Rightarrow> a * base + v) 0 ds"

fun has_hex_prefix :: "string \<Rightarrow> bool" where
  "has_hex_prefix (c0 # c1 # c2 # _) =
     (c0 = CHR ''0'' \<and> (c1 = CHR ''x'' \<or> c1 = CHR ''X'') \<and> is_digit 16 c2)"
| "has_hex_prefix _ = False"

definition strtoul :: "string \<Rightarrow> nat \<Rightarrow> 64 word \<times> nat" where
  "strtoul nptr base =
     (let ws = takeWhile isspace nptr;
          s1 = dropWhile isspace nptr;
          neg = (case s1 of [] \<Rightarrow> False | c # _ \<Rightarrow> c = CHR ''-'');
          sgn = (case s1 of [] \<Rightarrow> 0 | c # _ \<Rightarrow> if c = CHR ''-'' \<or> c = CHR ''+'' then 1 else 0);
          s2 = drop sgn s1;
          pre = (if base = 16 \<and> has_hex_prefix s2 then 2 else 0);
          ds = takeWhile (is_digit base) (drop pre s2);
          v = accumulate base ds
      in if ds = [] then (0, 0)
         else (if v > 18446744073709551615 then - 1
               else if neg then - word_of_nat v
               else word_of_nat v,
               length ws + sgn + pre + length ds))"

subsection \<open>\<open>parse_argv1\<close>\<close>

text \<open>
  \<open>std::string::substr(pos, n)\<close> throws \<open>std::out_of_range\<close> when \<open>pos\<close> is beyond the
  size, and otherwise returns at most \<open>n\<close> characters from \<open>pos\<close>.
\<close>

definition substr :: "string \<Rightarrow> nat \<Rightarrow> nat \<Rightarrow> exn + string" where
  "substr s pos n =
     (if pos > length s then Inl (OutOfRange ''basic_string::substr'')
      else Inr (take n (drop pos s)))"

text \<open>
  The size test comes first and \<open>or\<close> short-circuits, so \<open>in[4]\<close> is read only from a
  string of nine characters. The two numbers are below 65536 when they are returned, so
  the conversion to \<open>uint16_t\<close> keeps their value.
\<close>

definition parse_argv1 :: "string \<Rightarrow> exn + (16 word \<times> 16 word)" where
  "parse_argv1 inp =
     (if length inp \<noteq> 9 \<or> inp ! 4 \<noteq> CHR '':''
      then Inl (RuntimeError ''Please provide correct vendor_id:product_id pair.'')
      else
        (case substr inp 0 4 of Inl e \<Rightarrow> Inl e | Inr s1 \<Rightarrow>
        (case substr inp 5 4 of Inl e \<Rightarrow> Inl e | Inr s2 \<Rightarrow>
        (let (num1, end1) = strtoul s1 16 in
         if end1 \<noteq> 4 \<or> num1 \<ge> 65536
         then Inl (RuntimeError ''Invalid vendor_id'')
         else
           (let (num2, end2) = strtoul s2 16 in
            if end2 \<noteq> 4 \<or> num2 \<ge> 65536
            then Inl (RuntimeError ''Invalid product_id'')
            else Inr (ucast num1, ucast num2))))))"

section \<open>The host USB library\<close>

text \<open>
  libusb is an external collaborator: every call blocks and returns a status code. The
  model takes the host's answers as data. A device answers the descriptor request with a
  status and a descriptor, the open request and the reset request with a status, and a
  request for the ASCII rendering of a string descriptor either with the characters or
  not at all. The string answer may depend on how many strings were requested from the
  handle before (a wedged device need not answer twice alike) and on the index.
\<close>

record libusb_device_descriptor =
  idVendor :: "16 word"
  idProduct :: "16 word"
  iManufacturer :: "8 word"
  iProduct :: "8 word"

record usb_device =
  get_device_descriptor_rc :: int
  device_descriptor :: libusb_device_descriptor
  open_rc :: int
  string_descriptor_ascii :: "nat \<Rightarrow> 8 word \<Rightarrow> string option"
  reset_device_rc :: int

text \<open>
  The host: the status of \<open>libusb_init\<close>, the error code of \<open>libusb_get_device_list\<close>
  (a negative value makes the call fail with it), the attached devices in enumeration
  order, and the bytes that the local array \<open>arr\<close> of \<open>reset\<close> holds before anything is
  written to it (the array is not initialised, and \<open>std::string\<close> reads from it up to the
  first NUL, wherever that is).
\<close>

record usb_host =
  init_rc :: int
  list_error :: int
  attached :: "usb_device list"
  uninitialised :: string

definition libusb_get_device_list :: "usb_host \<Rightarrow> int \<times> usb_device list" where
  "libusb_get_device_list h =
     (if list_error h < 0 then (list_error h, [])
      else (int (length (attached h)), attached h))"

text \<open>
  \<open>libusb_get_string_descriptor_ascii(hnd, index, arr, 256)\<close> writes at most 255
  characters and a terminating NUL when the device answers, and leaves the buffer alone
  when it does not. The program ignores the return value.
\<close>

definition libusb_get_string_descriptor_ascii ::
    "usb_device \<Rightarrow> nat \<Rightarrow> 8 word \<Rightarrow> string \<Rightarrow> string" where
  "libusb_get_string_descriptor_ascii dev n idx arr =
     (case string_descriptor_ascii dev n idx of
        None \<Rightarrow> arr
      | Some s \<Rightarrow> (let data = take 255 s in data @ [CHR 0x00] @ drop (length data + 1) arr))"

text \<open>\<open>std::string(const char *)\<close>: the characters before the first NUL.\<close>

definition c_string :: "string \<Rightarrow> string" where
  "c_string arr = takeWhile (\<lambda>c. c \<noteq> CHR 0x00) arr"

section \<open>Observable behaviour\<close>

text \<open>
  A run is observed as the sequence of library calls, each fallible one with the status
  it returned, and of the chunks written to \<open>std::cout\<close>, one per \<open>std::endl\<close>. Devices are
  named by their position in the device list.
\<close>

datatype event =
    LibusbInit int
  | LibusbExit
  | GetDeviceList int
  | FreeDeviceList
  | GetDeviceDescriptor nat int
  | Open nat int
  | Close nat
  | GetStringDescriptorAscii nat "8 word"
  | ResetDevice nat int
  | Cout string

fun cout_lines :: "event list \<Rightarrow> string list" where
  "cout_lines [] = []"
| "cout_lines (Cout s # es) = s # cout_lines es"
| "cout_lines (_ # es) = cout_lines es"

section \<open>The RAII classes\<close>

text \<open>
  \<open>DeviceList\<close> holds the count and the array returned by \<open>libusb_get_device_list\<close>. Its
  constructor throws on a negative count; \<open>operator[]\<close> throws outside \<open>[0, cnt)\<close>.
\<close>

record DeviceList =
  cnt :: int
  devs :: "usb_device list"

definition DeviceList_ctor :: "usb_host \<Rightarrow> exn + DeviceList" where
  "DeviceList_ctor h =
     (let (c, ds) = libusb_get_device_list h in
      if c < 0 then Inl (UsbLibException ''Failed to get device list from libusb.'')
      else Inr \<lparr>cnt = c, devs = ds\<rparr>)"

definition DeviceList_size :: "DeviceList \<Rightarrow> int" where
  "DeviceList_size dl = cnt dl"

definition DeviceList_index :: "DeviceList \<Rightarrow> int \<Rightarrow> exn + usb_device" where
  "DeviceList_index dl idx =
     (if idx < 0 \<or> idx \<ge> cnt dl then Inl (OutOfRange ''DeviceList: Index out of range.'')
      else Inr (devs dl ! nat idx))"

section \<open>\<open>reset\<close>\<close>

text \<open>The decimal digits that \<open>operator<<\<close> writes for a size.\<close>

fun dec :: "nat \<Rightarrow> string" where
  "dec n =
     (if n < 10 then [''0123456789'' ! n]
      else dec (n div 10) @ [''0123456789'' ! (n mod 10)])"

text \<open>
  The two string requests of a matched device share one buffer: what the second
  \<open>std::string\<close> holds depends on the first request when the second one fails.
\<close>

definition read_strings ::
    "usb_host \<Rightarrow> usb_device \<Rightarrow> libusb_device_descriptor \<Rightarrow> string \<times> string" where
  "read_strings h dev desc =
     (let arr0 = uninitialised h;
          arr1 = libusb_get_string_descriptor_ascii dev 0 (iProduct desc) arr0;
          prod_str = c_string arr1;
          arr2 = libusb_get_string_descriptor_ascii dev 1 (iManufacturer desc) arr1;
          manu_str = c_string arr2
      in (prod_str, manu_str))"

text \<open>
  The condition of the \<open>if\<close> that guards the reset. A \<open>const char *\<close> argument is \<open>None\<close>
  when it is the null pointer and otherwise the characters it points to.
\<close>

definition should_reset :: "string option \<Rightarrow> string option \<Rightarrow> string \<Rightarrow> string \<Rightarrow> bool" where
  "should_reset product manufacturer prod_str manu_str =
     ((product \<noteq> None \<and> manufacturer \<noteq> None \<and> Some prod_str \<noteq> product
         \<and> Some manu_str \<noteq> manufacturer)
      \<or> (product = None \<and> manufacturer = None))"

definition reset_warning :: string where
  "reset_warning =
     ''It seems the reset process did not end properly. ''
     @ ''You should check the device itself to see if it ''
     @ ''succeeded.''"

text \<open>
  The body of the loop for the device whose ids match: the handle is opened (its
  constructor throws when \<open>libusb_open\<close> fails, and a handle that was never opened is
  not closed), the strings are read, the reset is made or not, and the handle is closed
  on the way out.
\<close>

definition reset_matched ::
    "usb_host \<Rightarrow> usb_device \<Rightarrow> nat \<Rightarrow> libusb_device_descriptor \<Rightarrow>
     string option \<Rightarrow> string option \<Rightarrow> event list \<times> exn option" where
  "reset_matched h dev i desc product manufacturer =
     (if open_rc dev \<noteq> 0
      then ([Open i (open_rc dev)],
            Some (UsbLibException
                    (''Failed to get handle for usb device. '' @ ''Insufficient privilege?'')))
      else
        (let (prod_str, manu_str) = read_strings h dev desc in
         ([Open i 0,
           GetStringDescriptorAscii i (iProduct desc),
           GetStringDescriptorAscii i (iManufacturer desc)]
          @ (if should_reset product manufacturer prod_str manu_str
             then [Cout (''Product: '' @ prod_str @ '' (length: '' @ dec (length prod_str) @ '')''),
                   Cout (''Manufacturer: '' @ manu_str @ '' (length: ''
                         @ dec (length manu_str) @ '')''),
                   Cout ''Resetting this device ...'',
                   ResetDevice i (reset_device_rc dev)]
                  @ (if reset_device_rc dev \<noteq> 0 then [Cout reset_warning] else [])
                  @ [Cout ''Finished.'']
             else [])
          @ [Close i],
          None)))"

text \<open>
  The \<open>for\<close> loop of \<open>reset\<close>, from index \<open>i\<close>. The loop variable is an \<open>int\<close> compared with
  an \<open>ssize_t\<close>; it cannot overflow before the device list has more than \<open>INT_MAX\<close>
  entries, which no USB host has, so it is an unbounded integer here. \<open>devs[i]\<close> is read
  twice for a matching device, with the same result; the model reads it once.
\<close>

function reset_loop ::
    "usb_host \<Rightarrow> DeviceList \<Rightarrow> 16 word \<times> 16 word \<Rightarrow> string option \<Rightarrow> string option \<Rightarrow>
     int \<Rightarrow> event list \<times> exn option" where
  "reset_loop h dl p product manufacturer i =
     (if i < DeviceList_size dl then
        (case DeviceList_index dl i of
           Inl e \<Rightarrow> ([], Some e)
         | Inr dev \<Rightarrow>
             if get_device_descriptor_rc dev \<noteq> 0
             then ([GetDeviceDescriptor (nat i) (get_device_descriptor_rc dev)],
                   Some (UsbLibException ''Failed to get device descriptor.''))
             else
               (let desc = device_descriptor dev in
                if idVendor desc = fst p \<and> idProduct desc = snd p
                then (let (t, r) = reset_matched h dev (nat i) desc product manufacturer
                      in (GetDeviceDescriptor (nat i) 0 # t, r))
                else (let (t, r) = reset_loop h dl p product manufacturer (i + 1)
                      in (GetDeviceDescriptor (nat i) 0 # t, r))))
      else ([Cout ''No such USB device found.''], None))"
  by pat_completeness auto
termination
  by (relation "measure (\<lambda>(h, dl, p, product, manufacturer, i). nat (cnt dl - i))")
     (auto simp: DeviceList_size_def)

text \<open>
  \<open>reset\<close>: the context and the device list are the two outer RAII objects. A
  constructor that throws leaves nothing of its own to destroy; every object already
  constructed is destroyed, in reverse order, when the function returns or an exception
  leaves it (\<open>main\<close> catches every exception that \<open>reset\<close> throws, so the stack is unwound).
\<close>

definition reset ::
    "usb_host \<Rightarrow> 16 word \<times> 16 word \<Rightarrow> string option \<Rightarrow> string option \<Rightarrow>
     event list \<times> exn option" where
  "reset h p product manufacturer =
     (if init_rc h \<noteq> 0
      then ([LibusbInit (init_rc h)], Some (UsbLibException ''Failed to initialize libusb.''))
      else
        (case DeviceList_ctor h of
           Inl e \<Rightarrow>
             ([LibusbInit 0, GetDeviceList (fst (libusb_get_device_list h)), LibusbExit], Some e)
         | Inr dl \<Rightarrow>
             (let (t, r) = reset_loop h dl p product manufacturer 0 in
              ([LibusbInit 0, GetDeviceList (cnt dl)] @ t @ [FreeDeviceList, LibusbExit], r))))"

section \<open>\<open>main\<close>\<close>

definition usage_head :: string where
  "usage_head =
     ''This program resets a specified USB device based on provided'' @ [CHR 0x0A]
     @ ''vendor_id:product_id pair. You can obtain this information using ''
     @ [CHR 0x22] @ ''lsusb'' @ [CHR 0x22, CHR 0x0A]
     @ ''command.'' @ [CHR 0x0A]
     @ ''If you also provide the product name and manufacturer name, the program will do''
     @ [CHR 0x0A]
     @ ''a comparison first and reset the device only if both of them do NOT match the''
     @ [CHR 0x0A]
     @ ''strings returned by the device. (This is because a malfunctioning USB device''
     @ [CHR 0x0A]
     @ ''that needs to be resetted usually does not return these strings correctly.)''
     @ [CHR 0x0A, CHR 0x0A] @ ''Usage:'' @ [CHR 0x0A] @ ''    ''"

definition diagnostic :: "exn \<Rightarrow> event list" where
  "diagnostic e = [Cout ''Error occured.'', Cout (''Detail: '' @ what e)]"

text \<open>
  \<open>main\<close> takes the answers of the host and \<open>argv\<close> (the program name first; \<open>argc\<close> is its
  length) and gives what is observed and the exit code. With an empty \<open>argv\<close> the program
  name is a null pointer, at which the stream stops accepting output.
\<close>

definition main :: "usb_host \<Rightarrow> string list \<Rightarrow> event list \<times> int" where
  "main h argv =
     (let argc = length argv in
      if argc = 2 \<or> argc = 4 then
        (case parse_argv1 (argv ! 1) of
           Inl e \<Rightarrow> (diagnostic e, 1)
         | Inr p \<Rightarrow>
             (let (t, r) = (if argc = 2 then reset h p None None
                            else reset h p (Some (argv ! 2)) (Some (argv ! 3)))
              in case r of
                   Some e \<Rightarrow> (t @ diagnostic e, 1)
                 | None \<Rightarrow> (t, 0)))
      else
        (case argv of
           [] \<Rightarrow> ([Cout usage_head], 0)
         | argv0 # _ \<Rightarrow>
             ([Cout (usage_head @ argv0
                     @ '' vendor_id:product_id '' @ ''[product_name manufacturer_name]'')],
              0)))"

section \<open>Notions used to state the properties\<close>

subsection \<open>Hexadecimal notation\<close>

text \<open>
  The hexadecimal digits and the number that a string of them denotes, in positional
  notation. These follow the specification's words and are independent of \<open>strtoul\<close>.
\<close>

definition hex_table :: "(char \<times> nat) list" where
  "hex_table =
     [(CHR ''0'', 0), (CHR ''1'', 1), (CHR ''2'', 2), (CHR ''3'', 3), (CHR ''4'', 4),
      (CHR ''5'', 5), (CHR ''6'', 6), (CHR ''7'', 7), (CHR ''8'', 8), (CHR ''9'', 9),
      (CHR ''a'', 10), (CHR ''b'', 11), (CHR ''c'', 12), (CHR ''d'', 13), (CHR ''e'', 14),
      (CHR ''f'', 15), (CHR ''A'', 10), (CHR ''B'', 11), (CHR ''C'', 12), (CHR ''D'', 13),
      (CHR ''E'', 14), (CHR ''F'', 15)]"

definition is_hex_char :: "char \<Rightarrow> bool" where
  "is_hex_char c = (map_of hex_table c \<noteq> None)"

definition hex_char_value :: "char \<Rightarrow> nat" where
  "hex_char_value c = (case map_of hex_table c of None \<Rightarrow> 0 | Some v \<Rightarrow> v)"

fun spec_hex_value :: "string \<Rightarrow> nat" where
  "spec_hex_value [] = 0"
| "spec_hex_value (c # cs) = hex_char_value c * 16 ^ length cs + spec_hex_value cs"

subsection \<open>The device that the scan selects\<close>

definition readable :: "usb_device \<Rightarrow> bool" where
  "readable dev = (get_device_descriptor_rc dev = 0)"

definition matches :: "16 word \<times> 16 word \<Rightarrow> usb_device \<Rightarrow> bool" where
  "matches p dev =
     (idVendor (device_descriptor dev) = fst p \<and> idProduct (device_descriptor dev) = snd p)"

text \<open>
  The session opens, the enumeration succeeds, and device \<open>k\<close> is the first of the
  snapshot with the target ids, every descriptor up to it having been read.
\<close>

definition selects :: "usb_host \<Rightarrow> 16 word \<times> 16 word \<Rightarrow> nat \<Rightarrow> bool" where
  "selects h p k =
     (init_rc h = 0 \<and> \<not> list_error h < 0 \<and> k < length (attached h)
      \<and> (\<forall>j<k. readable (attached h ! j) \<and> \<not> matches p (attached h ! j))
      \<and> readable (attached h ! k) \<and> matches p (attached h ! k))"

text \<open>The descriptor reads of the devices before device \<open>n\<close>, all successful.\<close>

definition scan_events :: "nat \<Rightarrow> event list" where
  "scan_events n = map (\<lambda>j. GetDeviceDescriptor j 0) [0..<n]"

text \<open>The device that an event is about, if any, and the events that only inspect.\<close>

fun device_of :: "event \<Rightarrow> nat option" where
  "device_of (GetDeviceDescriptor i rc) = Some i"
| "device_of (Open i rc) = Some i"
| "device_of (Close i) = Some i"
| "device_of (GetStringDescriptorAscii i idx) = Some i"
| "device_of (ResetDevice i rc) = Some i"
| "device_of _ = None"

fun is_descriptor_read :: "event \<Rightarrow> bool" where
  "is_descriptor_read (GetDeviceDescriptor i rc) = True"
| "is_descriptor_read _ = False"

fun is_open :: "event \<Rightarrow> bool" where
  "is_open (Open i rc) = True"
| "is_open _ = False"

fun is_reset :: "event \<Rightarrow> bool" where
  "is_reset (ResetDevice i rc) = True"
| "is_reset _ = False"

subsection \<open>Resources\<close>

datatype resource = Session | Snapshot | Handle nat

fun acquires :: "event \<Rightarrow> resource option" where
  "acquires (LibusbInit rc) = (if rc = 0 then Some Session else None)"
| "acquires (GetDeviceList c) = (if c < 0 then None else Some Snapshot)"
| "acquires (Open i rc) = (if rc = 0 then Some (Handle i) else None)"
| "acquires _ = None"

fun releases :: "event \<Rightarrow> resource option" where
  "releases LibusbExit = Some Session"
| "releases FreeDeviceList = Some Snapshot"
| "releases (Close i) = Some (Handle i)"
| "releases _ = None"

text \<open>
  Stack discipline: with the resources \<open>held\<close> (the latest first), every release in the
  run gives back the resource acquired last among those still held, and nothing is held
  when the run ends.
\<close>

fun unwinds :: "resource list \<Rightarrow> event list \<Rightarrow> bool" where
  "unwinds held [] = (held = [])"
| "unwinds held (e # es) =
     (case releases e of
        Some r \<Rightarrow> (case held of [] \<Rightarrow> False | r0 # rest \<Rightarrow> r0 = r \<and> unwinds rest es)
      | None \<Rightarrow> (case acquires e of Some r \<Rightarrow> unwinds (r # held) es
                                   | None \<Rightarrow> unwinds held es))"

definition acquired :: "event list \<Rightarrow> resource list" where
  "acquired t = List.map_filter acquires t"

definition released :: "event list \<Rightarrow> resource list" where
  "released t = List.map_filter releases t"

text \<open>
  The order of acquisition: the session, then the snapshot, then the handle of one
  device. A run releases in reverse order of acquisition when it keeps the stack
  discipline, acquires in that order, and its releases are its acquisitions reversed.
\<close>

fun nested :: "resource list \<Rightarrow> bool" where
  "nested [] = True"
| "nested [r] = (r = Session)"
| "nested [r, s] = (r = Session \<and> s = Snapshot)"
| "nested [r, s, Handle k] = (r = Session \<and> s = Snapshot)"
| "nested _ = False"

definition reverse_release :: "event list \<Rightarrow> bool" where
  "reverse_release t = (unwinds [] t \<and> nested (acquired t) \<and> released t = rev (acquired t))"

subsection \<open>Fatal errors\<close>

text \<open>
  The specification's taxonomy of fatal errors: which one, if any, an invocation meets.
  The parser's three errors are the exceptions that \<open>parse_argv1\<close> returns.
\<close>

definition LibraryInitError :: exn where
  "LibraryInitError = UsbLibException ''Failed to initialize libusb.''"

definition EnumerationError :: exn where
  "EnumerationError = UsbLibException ''Failed to get device list from libusb.''"

definition DescriptorReadError :: exn where
  "DescriptorReadError = UsbLibException ''Failed to get device descriptor.''"

definition HandleOpenError :: exn where
  "HandleOpenError =
     UsbLibException ''Failed to get handle for usb device. Insufficient privilege?''"

definition FormatError :: exn where
  "FormatError = RuntimeError ''Please provide correct vendor_id:product_id pair.''"

definition InvalidVendorId :: exn where
  "InvalidVendorId = RuntimeError ''Invalid vendor_id''"

definition InvalidProductId :: exn where
  "InvalidProductId = RuntimeError ''Invalid product_id''"

definition fatal_error :: "usb_host \<Rightarrow> string list \<Rightarrow> exn option" where
  "fatal_error h argv =
     (if length argv \<noteq> 2 \<and> length argv \<noteq> 4 then None
      else
        (case parse_argv1 (argv ! 1) of
           Inl e \<Rightarrow> Some e
         | Inr p \<Rightarrow>
             if init_rc h \<noteq> 0 then Some LibraryInitError
             else if list_error h < 0 then Some EnumerationError
             else
               (case find (\<lambda>dev. \<not> readable dev \<or> matches p dev) (attached h) of
                  None \<Rightarrow> None
                | Some dev \<Rightarrow>
                    if \<not> readable dev then Some DescriptorReadError
                    else if open_rc dev \<noteq> 0 then Some HandleOpenError
                    else None)))"

text \<open>
  A library call whose failure is fatal, and the error that the failure of each call is.
\<close>

fun fatal_failure :: "event \<Rightarrow> bool" where
  "fatal_failure (LibusbInit rc) = (rc \<noteq> 0)"
| "fatal_failure (GetDeviceList c) = (c < 0)"
| "fatal_failure (GetDeviceDescriptor i rc) = (rc \<noteq> 0)"
| "fatal_failure (Open i rc) = (rc \<noteq> 0)"
| "fatal_failure _ = False"

fun error_of :: "event \<Rightarrow> exn option" where
  "error_of (LibusbInit rc) = (if rc \<noteq> 0 then Some LibraryInitError else None)"
| "error_of (GetDeviceList c) = (if c < 0 then Some EnumerationError else None)"
| "error_of (GetDeviceDescriptor i rc) = (if rc \<noteq> 0 then Some DescriptorReadError else None)"
| "error_of (Open i rc) = (if rc \<noteq> 0 then Some HandleOpenError else None)"
| "error_of _ = None"

fun is_cout :: "event \<Rightarrow> bool" where
  "is_cout (Cout s) = True"
| "is_cout _ = False"

definition parser_error :: "exn \<Rightarrow> bool" where
  "parser_error e = (e = FormatError \<or> e = InvalidVendorId \<or> e = InvalidProductId)"

text \<open>
  The events of a run before its diagnostic show that the error \<open>e\<close> aborted the
  pipeline when either no library call failed, and then \<open>e\<close> is an error of the parser and
  there is no event at all (the library was never called); or the first failing call is
  the one whose failure is \<open>e\<close>, and every event after it is the release of a resource:
  no further request to the library, no output.
\<close>

definition aborted_by :: "exn \<Rightarrow> event list \<Rightarrow> bool" where
  "aborted_by e calls =
     (case dropWhile (\<lambda>x. \<not> fatal_failure x) calls of
        [] \<Rightarrow> calls = [] \<and> parser_error e
      | f # post \<Rightarrow> error_of f = Some e \<and> list_all (\<lambda>x. releases x \<noteq> None) post)"

subsection \<open>Example hosts\<close>

text \<open>
  The keyboard of the README (413c:2003, \<open>Dell USB Keyboard\<close> by \<open>Dell\<close>), a root hub
  that may not be opened, a keyboard that answers no string request and fails the reset,
  and a keyboard that may not be opened; a host has some of them attached.
\<close>

definition example_keyboard :: usb_device where
  "example_keyboard =
     \<lparr>get_device_descriptor_rc = 0,
      device_descriptor =
        \<lparr>idVendor = 0x413c, idProduct = 0x2003, iManufacturer = 1, iProduct = 2\<rparr>,
      open_rc = 0,
      string_descriptor_ascii =
        (\<lambda>n idx. if idx = 2 then Some ''Dell USB Keyboard''
                  else if idx = 1 then Some ''Dell'' else None),
      reset_device_rc = 0\<rparr>"

definition example_hub :: usb_device where
  "example_hub =
     \<lparr>get_device_descriptor_rc = 0,
      device_descriptor =
        \<lparr>idVendor = 0x1d6b, idProduct = 0x0002, iManufacturer = 3, iProduct = 2\<rparr>,
      open_rc = - 3,
      string_descriptor_ascii = (\<lambda>n idx. None),
      reset_device_rc = 0\<rparr>"

definition example_host :: "usb_device list \<Rightarrow> usb_host" where
  "example_host ds = \<lparr>init_rc = 0, list_error = 0, attached = ds, uninitialised = ''??''\<rparr>"


definition example_locked :: usb_device where
  "example_locked = example_keyboard\<lparr>open_rc := - 3\<rparr>"

section \<open>Simplification setup\<close>

declare dec.simps [simp del]

declare reset_loop.simps [simp del]

section \<open>The parser on well-formed input\<close>

lemma hex_char_cases:
  assumes "is_hex_char c"
  shows "c \<in> set (map fst hex_table)"
  using assms unfolding is_hex_char_def by (metis map_of_eq_None_iff set_map)

lemma hex_char_digit:
  assumes "is_hex_char c"
  shows "digit_value c = Some (hex_char_value c) \<and> hex_char_value c < 16
         \<and> \<not> isspace c \<and> c \<noteq> CHR ''-'' \<and> c \<noteq> CHR ''+''
         \<and> c \<noteq> CHR ''x'' \<and> c \<noteq> CHR ''X''"
  using hex_char_cases [OF assms]
  by (auto simp: hex_table_def hex_char_value_def digit_value_def isspace_def)

text \<open>Horner's scheme, as \<open>strtoul\<close> accumulates, computes the positional value.\<close>

lemma accumulate_hex:
  assumes "\<forall>c \<in> set cs. is_hex_char c"
  shows "foldl (\<lambda>a c. case digit_value c of None \<Rightarrow> a | Some v \<Rightarrow> a * 16 + v) a cs
         = a * 16 ^ length cs + spec_hex_value cs"
  using assms
proof (induction cs arbitrary: a)
  case Nil
  show ?case by simp
next
  case (Cons c cs)
  then show ?case by (simp add: hex_char_digit algebra_simps)
qed

lemma spec_hex_value_bound:
  assumes "\<forall>c \<in> set cs. is_hex_char c"
  shows "spec_hex_value cs < 16 ^ length cs"
  using assms
proof (induction cs)
  case Nil
  show ?case by simp
next
  case (Cons c cs)
  have "hex_char_value c \<le> 15" using Cons.prems hex_char_digit [of c] by simp
  then have "hex_char_value c * 16 ^ length cs \<le> 15 * 16 ^ length cs"
    by (rule mult_le_mono1)
  moreover have "spec_hex_value cs < 16 ^ length cs" using Cons by simp
  moreover have "spec_hex_value (c # cs) = hex_char_value c * 16 ^ length cs + spec_hex_value cs"
    by simp
  moreover have "(16::nat) ^ length (c # cs) = 16 * 16 ^ length cs" by simp
  ultimately show ?case by linarith
qed

lemma word_of_small:
  assumes "v < 65536"
  shows "\<not> (65536 \<le> (word_of_nat v :: 64 word))"
    and "unat (ucast (word_of_nat v :: 64 word) :: 16 word) = v"
    and "\<not> (v > 18446744073709551615)"
  using assms by (simp_all add: word_le_nat_alt unat_of_nat unsigned_ucast_eq take_bit_eq_mod)

lemma strtoul_hex4:
  assumes "is_hex_char a" "is_hex_char b" "is_hex_char c" "is_hex_char d"
  shows "strtoul [a, b, c, d] 16 = (word_of_nat (spec_hex_value [a, b, c, d]), 4)"
proof -
  let ?cs = "[a, b, c, d]"
  have all: "\<forall>x \<in> set ?cs. is_hex_char x" using assms by simp
  have acc: "accumulate 16 ?cs = spec_hex_value ?cs"
    unfolding accumulate_def using accumulate_hex [OF all, of 0] by simp
  have bound: "spec_hex_value ?cs < 65536"
    using spec_hex_value_bound [OF all] by simp
  have dig: "is_digit 16 a" "is_digit 16 b" "is_digit 16 c" "is_digit 16 d"
    using assms hex_char_digit by (simp_all add: is_digit_def)
  have nopre: "\<not> has_hex_prefix ?cs" using hex_char_digit [OF assms(2)] by simp
  have tw: "takeWhile isspace ?cs = []" "dropWhile isspace ?cs = ?cs"
    using hex_char_digit [OF assms(1)] by simp_all
  have sg: "a \<noteq> CHR ''-''" "a \<noteq> CHR ''+''" using hex_char_digit [OF assms(1)] by simp_all
  define v where "v = spec_hex_value ?cs"
  have big: "\<not> (v > 18446744073709551615)" using bound word_of_small(3) v_def by simp
  have "strtoul ?cs 16 = (word_of_nat v, 4)"
    unfolding strtoul_def Let_def tw
    using sg nopre dig acc [folded v_def] big by (simp del: has_hex_prefix.simps)
  then show ?thesis by (simp only: v_def)
qed

text \<open>
  C3. For every string of nine characters made of four hexadecimal digits, a colon at
  offset 4 and four hexadecimal digits, \<open>parse_argv1\<close> succeeds, and the two 16-bit
  numbers it returns are the numbers that the two halves denote in hexadecimal.
\<close>

theorem parse_argv1_well_formed:
  assumes "length inp = 9" and "inp ! 4 = CHR '':''"
    and "\<forall>i<4. is_hex_char (inp ! i)" and "\<forall>i<4. is_hex_char (inp ! (5 + i))"
  shows "\<exists>vid pid. parse_argv1 inp = Inr (vid, pid)
           \<and> unat vid = spec_hex_value (take 4 inp)
           \<and> unat pid = spec_hex_value (drop 5 inp)"
proof -
  obtain a b c d k e f g h where inp: "inp = [a, b, c, d, k, e, f, g, h]"
    using assms(1) by (auto simp: length_Suc_conv eval_nat_numeral)
  have k: "k = CHR '':''" using assms(2) inp by simp
  have h1: "is_hex_char a" "is_hex_char b" "is_hex_char c" "is_hex_char d"
    using assms(3) [rule_format, of 0] assms(3) [rule_format, of 1]
      assms(3) [rule_format, of 2] assms(3) [rule_format, of 3] inp by simp_all
  have h2: "is_hex_char e" "is_hex_char f" "is_hex_char g" "is_hex_char h"
    using assms(4) [rule_format, of 0] assms(4) [rule_format, of 1]
      assms(4) [rule_format, of 2] assms(4) [rule_format, of 3] inp by simp_all
  have b1: "spec_hex_value [a, b, c, d] < 65536"
    using spec_hex_value_bound [of "[a, b, c, d]"] h1 by simp
  have b2: "spec_hex_value [e, f, g, h] < 65536"
    using spec_hex_value_bound [of "[e, f, g, h]"] h2 by simp
  note w1 = word_of_small(1) [OF b1] and w2 = word_of_small(1) [OF b2]
  note u1 = word_of_small(2) [OF b1] and u2 = word_of_small(2) [OF b2]
  have "parse_argv1 inp =
          Inr (ucast (word_of_nat (spec_hex_value [a, b, c, d]) :: 64 word),
               ucast (word_of_nat (spec_hex_value [e, f, g, h]) :: 64 word))"
    using w1 w2 unfolding parse_argv1_def inp k
    by (simp add: substr_def strtoul_hex4 [OF h1] strtoul_hex4 [OF h2]
          del: spec_hex_value.simps)
  then show ?thesis using u1 u2 unfolding inp by simp
qed

text \<open>The specification's example: \<open>413c:2003\<close> gives the pair (0x413c, 0x2003).\<close>

theorem parse_argv1_well_formed_witness:
  "parse_argv1 ''413c:2003'' = Inr (0x413c, 0x2003)"
proof -
  have l: "length ''413c:2003'' = 9" by simp
  have c: "''413c:2003'' ! 4 = CHR '':''" by simp
  have a: "\<forall>i<4. is_hex_char (''413c:2003'' ! i)"
    by (simp add: eval_nat_numeral All_less_Suc is_hex_char_def hex_table_def)
  have b: "\<forall>i<4. is_hex_char (''413c:2003'' ! (5 + i))"
    by (simp add: eval_nat_numeral All_less_Suc is_hex_char_def hex_table_def)
  from parse_argv1_well_formed [OF l c a b]
  obtain vid pid where r: "parse_argv1 ''413c:2003'' = Inr (vid, pid)"
    and v: "unat vid = spec_hex_value (take 4 ''413c:2003'')"
    and p: "unat pid = spec_hex_value (drop 5 ''413c:2003'')" by blast
  have "unat vid = unat (0x413c :: 16 word)"
    using v by (simp add: hex_char_value_def hex_table_def)
  then have "vid = 0x413c" by (simp only: word_unat_eq_iff)
  moreover have "unat pid = unat (0x2003 :: 16 word)"
    using p by (simp add: hex_char_value_def hex_table_def)
  then have "pid = 0x2003" by (simp only: word_unat_eq_iff)
  ultimately show ?thesis using r by simp
qed

section \<open>The parser on malformed input\<close>

lemmas parse_defs =
  parse_argv1_def substr_def strtoul_def isspace_def is_digit_def digit_value_def
  accumulate_def

text \<open>
  A string that is not nine characters long, or has no colon at offset 4, is refused with
  the format error, whatever else it contains.
\<close>

lemma parse_argv1_format_error:
  assumes "length inp \<noteq> 9 \<or> inp ! 4 \<noteq> CHR '':''"
  shows "parse_argv1 inp = Inl FormatError"
  using assms by (auto simp: parse_argv1_def FormatError_def)

text \<open>The three error kinds of the parser on inputs that it does refuse.\<close>

lemma parse_argv1_error_kinds:
  "parse_argv1 ''413c2003'' = Inl FormatError"
  "parse_argv1 ''413c-2003'' = Inl FormatError"
  "parse_argv1 ''41g3:2003'' = Inl InvalidVendorId"
  "parse_argv1 ''-001:2003'' = Inl InvalidVendorId"
  "parse_argv1 ''413c:20 3'' = Inl InvalidProductId"
  by (simp_all add: parse_defs FormatError_def InvalidVendorId_def InvalidProductId_def)

text \<open>
  A half whose last character is no hexadecimal digit is always refused: what \<open>strtoul\<close>
  skips comes before the digits, so the character it stops after is a digit.
\<close>

lemma strtoul_last_digit:
  assumes "snd (strtoul s 16) = length s" and "s \<noteq> []"
  shows "is_digit 16 (last s)"
proof -
  define ws where "ws = takeWhile isspace s"
  define s1 where "s1 = dropWhile isspace s"
  define sgn :: nat where
    "sgn = (case s1 of [] \<Rightarrow> 0 | c # _ \<Rightarrow> if c = CHR ''-'' \<or> c = CHR ''+'' then 1 else 0)"
  define s2 where "s2 = drop sgn s1"
  define pre :: nat where "pre = (if has_hex_prefix s2 then 2 else 0)"
  define s3 where "s3 = drop pre s2"
  define ds where "ds = takeWhile (is_digit 16) s3"
  have snd_eq: "snd (strtoul s 16) = (if ds = [] then 0 else length ws + sgn + pre + length ds)"
    by (simp add: strtoul_def Let_def ws_def s1_def sgn_def s2_def pre_def s3_def ds_def)
  have nonempty: "ds \<noteq> []" using assms snd_eq by auto
  have len: "length ws + sgn + pre + length ds = length s" using assms snd_eq nonempty by simp
  have s: "s = ws @ s1" by (simp add: ws_def s1_def)
  have l1: "sgn \<le> length s1" by (cases s1) (simp_all add: sgn_def)
  have s1: "s1 = take sgn s1 @ s2" by (simp add: s2_def)
  have l2: "pre \<le> length s2"
    by (cases s2 rule: has_hex_prefix.cases) (simp_all add: pre_def)
  have s2: "s2 = take pre s2 @ s3" by (simp add: s3_def)
  have s3: "s3 = ds @ dropWhile (is_digit 16) s3" by (simp add: ds_def)
  have "length s = length ws + sgn + pre + length ds + length (dropWhile (is_digit 16) s3)"
    using s s1 s2 s3 l1 l2
    by (metis (no_types, lifting) add.assoc length_append length_take min.absorb2)
  then have "dropWhile (is_digit 16) s3 = []" using len by simp
  then have "s3 = ds" using s3 by (metis append_Nil2)
  then have "s = ws @ take sgn s1 @ take pre s2 @ ds" using s s1 s2 by metis
  then have "last s = last ds" using nonempty by (metis append_assoc last_appendR)
  moreover have "is_digit 16 (last ds)"
    using nonempty by (metis ds_def last_in_set set_takeWhileD)
  ultimately show ?thesis by simp
qed

lemma parse_argv1_last_of_half:
  assumes "parse_argv1 inp = Inr r"
  shows "is_digit 16 (inp ! 3) \<and> is_digit 16 (inp ! 8)"
proof -
  have l: "length inp = 9"
    using assms by (auto simp: parse_argv1_def split: if_splits)
  have e: "snd (strtoul (take 4 inp) 16) = 4" "snd (strtoul (take 4 (drop 5 inp)) 16) = 4"
    using assms l
    by (auto simp: parse_argv1_def substr_def case_prod_beta Let_def split: if_splits)
  obtain a b c d k e f g h where inp: "inp = [a, b, c, d, k, e, f, g, h]"
    using l by (auto simp: length_Suc_conv eval_nat_numeral)
  have "is_digit 16 (last (take 4 inp))"
    using e(1) l by (intro strtoul_last_digit) auto
  moreover have "last (take 4 inp) = inp ! 3" by (simp add: inp)
  moreover have "is_digit 16 (last (take 4 (drop 5 inp)))"
    using e(2) l by (intro strtoul_last_digit) auto
  moreover have "last (take 4 (drop 5 inp)) = inp ! 8" by (simp add: inp)
  ultimately show ?thesis by simp
qed

text \<open>
  C4. A half that is not made of four hexadecimal digits should be refused with
  \<open>InvalidVendorId\<close> or \<open>InvalidProductId\<close>. \<open>strtoul\<close> accepts more than digits: in
  \<open>0x12:0x34\<close> both halves hold the character \<open>x\<close>, which is no hexadecimal digit, and in
  \<open>-000: +1f\<close> the halves hold a sign and a blank; the parser returns a pair for both.
\<close>

theorem parse_argv1_accepts_non_hex:
  "\<not> is_hex_char (CHR ''x'') \<and> \<not> is_hex_char (CHR ''-'') \<and> \<not> is_hex_char (CHR '' '')
   \<and> parse_argv1 ''0x12:0x34'' = Inr (0x12, 0x34)
   \<and> parse_argv1 ''-000: +1f'' = Inr (0, 0x1f)"
  by (simp add: parse_defs is_hex_char_def hex_table_def)

theorem parse_argv1_accepts_non_hex_witness:
  "parse_argv1 ''0x12:0x34'' \<noteq> Inl InvalidVendorId
   \<and> parse_argv1 ''-000: +1f'' \<noteq> Inl InvalidVendorId"
  using parse_argv1_accepts_non_hex by simp

section \<open>What a run of \<open>reset\<close> looks like\<close>

text \<open>
  The loop from index \<open>i\<close> in the three ways it can end: at a device with the target ids,
  at a device whose descriptor cannot be read, or past the last device.
\<close>

lemma reset_loop_selected:
  assumes "cnt dl = int (length (devs dl))" and "i \<le> k" and "k < length (devs dl)"
    and "\<forall>j. i \<le> j \<and> j < k \<longrightarrow> readable (devs dl ! j) \<and> \<not> matches p (devs dl ! j)"
    and "readable (devs dl ! k)" and "matches p (devs dl ! k)"
  shows "reset_loop h dl p product manufacturer (int i) =
           (map (\<lambda>j. GetDeviceDescriptor j 0) [i..<k]
              @ GetDeviceDescriptor k 0
                # fst (reset_matched h (devs dl ! k) k (device_descriptor (devs dl ! k))
                         product manufacturer),
            snd (reset_matched h (devs dl ! k) k (device_descriptor (devs dl ! k))
                   product manufacturer))"
  using assms(2,4)
proof (induction "k - i" arbitrary: i)
  case 0
  then have ik: "i = k" by simp
  show ?case
    unfolding ik
    using assms(1,3,5,6)
    by (subst reset_loop.simps)
       (simp add: DeviceList_size_def DeviceList_index_def readable_def matches_def Let_def
          split: prod.splits)
next
  case (Suc n)
  then have lt: "i < k" and n: "n = k - Suc i" by simp_all
  have here: "readable (devs dl ! i)" "\<not> matches p (devs dl ! i)"
    using Suc.prems lt by simp_all
  have rest: "\<forall>j. Suc i \<le> j \<and> j < k \<longrightarrow> readable (devs dl ! j) \<and> \<not> matches p (devs dl ! j)"
    using Suc.prems by simp
  have ih: "reset_loop h dl p product manufacturer (int (Suc i)) =
           (map (\<lambda>j. GetDeviceDescriptor j 0) [Suc i..<k]
              @ GetDeviceDescriptor k 0
                # fst (reset_matched h (devs dl ! k) k (device_descriptor (devs dl ! k))
                         product manufacturer),
            snd (reset_matched h (devs dl ! k) k (device_descriptor (devs dl ! k))
                   product manufacturer))"
    using Suc.hyps(1) [OF n _ rest] lt by simp
  have step: "int i + 1 = int (Suc i)" by simp
  show ?case
    using assms(1,3) lt here
    by (subst reset_loop.simps)
       (auto simp add: DeviceList_size_def DeviceList_index_def readable_def matches_def
          Let_def step ih upt_conv_Cons simp del: of_nat_Suc)
qed

lemma reset_loop_unreadable:
  assumes "cnt dl = int (length (devs dl))" and "i \<le> k" and "k < length (devs dl)"
    and "\<forall>j. i \<le> j \<and> j < k \<longrightarrow> readable (devs dl ! j) \<and> \<not> matches p (devs dl ! j)"
    and "\<not> readable (devs dl ! k)"
  shows "reset_loop h dl p product manufacturer (int i) =
           (map (\<lambda>j. GetDeviceDescriptor j 0) [i..<k]
              @ [GetDeviceDescriptor k (get_device_descriptor_rc (devs dl ! k))],
            Some DescriptorReadError)"
  using assms(2,4)
proof (induction "k - i" arbitrary: i)
  case 0
  then have ik: "i = k" by simp
  show ?case
    unfolding ik
    using assms(1,3,5)
    by (subst reset_loop.simps)
       (simp add: DeviceList_size_def DeviceList_index_def readable_def
          DescriptorReadError_def)
next
  case (Suc n)
  then have lt: "i < k" and n: "n = k - Suc i" by simp_all
  have here: "readable (devs dl ! i)" "\<not> matches p (devs dl ! i)"
    using Suc.prems lt by simp_all
  have rest: "\<forall>j. Suc i \<le> j \<and> j < k \<longrightarrow> readable (devs dl ! j) \<and> \<not> matches p (devs dl ! j)"
    using Suc.prems by simp
  have ih: "reset_loop h dl p product manufacturer (int (Suc i)) =
           (map (\<lambda>j. GetDeviceDescriptor j 0) [Suc i..<k]
              @ [GetDeviceDescriptor k (get_device_descriptor_rc (devs dl ! k))],
            Some DescriptorReadError)"
    using Suc.hyps(1) [OF n _ rest] lt by simp
  have step: "int i + 1 = int (Suc i)" by simp
  show ?case
    using assms(1,3) lt here
    by (subst reset_loop.simps)
       (auto simp add: DeviceList_size_def DeviceList_index_def readable_def matches_def
          Let_def step ih upt_conv_Cons simp del: of_nat_Suc)
qed

lemma reset_loop_none:
  assumes "cnt dl = int (length (devs dl))" and "i \<le> length (devs dl)"
    and "\<forall>j. i \<le> j \<and> j < length (devs dl)
           \<longrightarrow> readable (devs dl ! j) \<and> \<not> matches p (devs dl ! j)"
  shows "reset_loop h dl p product manufacturer (int i) =
           (map (\<lambda>j. GetDeviceDescriptor j 0) [i..<length (devs dl)]
              @ [Cout ''No such USB device found.''],
            None)"
  using assms(2,3)
proof (induction "length (devs dl) - i" arbitrary: i)
  case 0
  then have ik: "i = length (devs dl)" by simp
  show ?case
    unfolding ik
    using assms(1)
    by (subst reset_loop.simps) (simp add: DeviceList_size_def)
next
  case (Suc n)
  then have lt: "i < length (devs dl)" and n: "n = length (devs dl) - Suc i" by simp_all
  have here: "readable (devs dl ! i)" "\<not> matches p (devs dl ! i)"
    using Suc.prems lt by simp_all
  have rest: "\<forall>j. Suc i \<le> j \<and> j < length (devs dl)
                \<longrightarrow> readable (devs dl ! j) \<and> \<not> matches p (devs dl ! j)"
    using Suc.prems by simp
  have ih: "reset_loop h dl p product manufacturer (int (Suc i)) =
           (map (\<lambda>j. GetDeviceDescriptor j 0) [Suc i..<length (devs dl)]
              @ [Cout ''No such USB device found.''],
            None)"
    using Suc.hyps(1) [OF n _ rest] lt by simp
  have step: "int i + 1 = int (Suc i)" by simp
  show ?case
    using assms(1) lt here
    by (subst reset_loop.simps)
       (auto simp add: DeviceList_size_def DeviceList_index_def readable_def matches_def
          Let_def step ih upt_conv_Cons simp del: of_nat_Suc)
qed

text \<open>The five kinds of run of \<open>reset\<close>, and the fact that there is no other.\<close>

lemma DeviceList_ctor_ok:
  assumes "\<not> list_error h < 0"
  shows "DeviceList_ctor h = Inr \<lparr>cnt = int (length (attached h)), devs = attached h\<rparr>"
  using assms by (simp add: DeviceList_ctor_def libusb_get_device_list_def)

lemma DeviceList_ctor_failed:
  assumes "list_error h < 0"
  shows "DeviceList_ctor h = Inl EnumerationError"
    and "fst (libusb_get_device_list h) = list_error h"
  using assms
  by (simp_all add: DeviceList_ctor_def libusb_get_device_list_def EnumerationError_def)

lemma reset_init_failed:
  assumes "init_rc h \<noteq> 0"
  shows "reset h p product manufacturer = ([LibusbInit (init_rc h)], Some LibraryInitError)"
  using assms by (simp add: reset_def LibraryInitError_def)

lemma reset_list_failed:
  assumes "init_rc h = 0" and "list_error h < 0"
  shows "reset h p product manufacturer =
           ([LibusbInit 0, GetDeviceList (list_error h), LibusbExit], Some EnumerationError)"
  using assms by (simp add: reset_def DeviceList_ctor_failed)

lemma reset_unreadable:
  assumes "init_rc h = 0" and "\<not> list_error h < 0" and "k < length (attached h)"
    and "\<forall>j<k. readable (attached h ! j) \<and> \<not> matches p (attached h ! j)"
    and "\<not> readable (attached h ! k)"
  shows "reset h p product manufacturer =
           ([LibusbInit 0, GetDeviceList (int (length (attached h)))] @ scan_events k
              @ [GetDeviceDescriptor k (get_device_descriptor_rc (attached h ! k)),
                 FreeDeviceList, LibusbExit],
            Some DescriptorReadError)"
proof -
  let ?dl = "\<lparr>cnt = int (length (attached h)), devs = attached h\<rparr>"
  have "reset_loop h ?dl p product manufacturer (int 0) =
          (map (\<lambda>j. GetDeviceDescriptor j 0) [0..<k]
             @ [GetDeviceDescriptor k (get_device_descriptor_rc (devs ?dl ! k))],
           Some DescriptorReadError)"
    using assms(3,4,5) by (intro reset_loop_unreadable) simp_all
  then show ?thesis
    using assms(1) by (simp add: reset_def DeviceList_ctor_ok [OF assms(2)] scan_events_def)
qed

lemma reset_none:
  assumes "init_rc h = 0" and "\<not> list_error h < 0"
    and "\<forall>dev \<in> set (attached h). readable dev \<and> \<not> matches p dev"
  shows "reset h p product manufacturer =
           ([LibusbInit 0, GetDeviceList (int (length (attached h)))]
              @ scan_events (length (attached h))
              @ [Cout ''No such USB device found.'', FreeDeviceList, LibusbExit],
            None)"
proof -
  let ?dl = "\<lparr>cnt = int (length (attached h)), devs = attached h\<rparr>"
  have "reset_loop h ?dl p product manufacturer (int 0) =
          (map (\<lambda>j. GetDeviceDescriptor j 0) [0..<length (devs ?dl)]
             @ [Cout ''No such USB device found.''],
           None)"
    using assms(3) by (intro reset_loop_none) simp_all
  then show ?thesis
    using assms(1) by (simp add: reset_def DeviceList_ctor_ok [OF assms(2)] scan_events_def)
qed

lemma reset_selected:
  assumes "selects h p k"
  shows "reset h p product manufacturer =
           ([LibusbInit 0, GetDeviceList (int (length (attached h)))] @ scan_events k
              @ [GetDeviceDescriptor k 0]
              @ fst (reset_matched h (attached h ! k) k (device_descriptor (attached h ! k))
                       product manufacturer)
              @ [FreeDeviceList, LibusbExit],
            snd (reset_matched h (attached h ! k) k (device_descriptor (attached h ! k))
                   product manufacturer))"
proof -
  let ?dl = "\<lparr>cnt = int (length (attached h)), devs = attached h\<rparr>"
  have ok: "init_rc h = 0" "\<not> list_error h < 0" using assms by (simp_all add: selects_def)
  have "reset_loop h ?dl p product manufacturer (int 0) =
          (map (\<lambda>j. GetDeviceDescriptor j 0) [0..<k]
             @ GetDeviceDescriptor k 0
               # fst (reset_matched h (devs ?dl ! k) k (device_descriptor (devs ?dl ! k))
                        product manufacturer),
           snd (reset_matched h (devs ?dl ! k) k (device_descriptor (devs ?dl ! k))
                  product manufacturer))"
    using assms by (intro reset_loop_selected) (simp_all add: selects_def)
  then show ?thesis
    using ok(1) by (simp add: reset_def DeviceList_ctor_ok [OF ok(2)] scan_events_def)
qed

lemma reset_cases [case_names init_failed list_failed unreadable selected none]:
  obtains "init_rc h \<noteq> 0"
  | "init_rc h = 0" and "list_error h < 0"
  | k where "init_rc h = 0" and "\<not> list_error h < 0" and "k < length (attached h)"
      and "\<forall>j<k. readable (attached h ! j) \<and> \<not> matches p (attached h ! j)"
      and "\<not> readable (attached h ! k)"
  | k where "selects h p k"
  | "init_rc h = 0" and "\<not> list_error h < 0"
      and "\<forall>dev \<in> set (attached h). readable dev \<and> \<not> matches p dev"
proof (cases "init_rc h \<noteq> 0 \<or> list_error h < 0")
  case True
  then show ?thesis using that(1,2) by blast
next
  case False
  then have ok: "init_rc h = 0" "\<not> list_error h < 0" by simp_all
  let ?stop = "\<lambda>dev. \<not> readable dev \<or> matches p dev"
  show ?thesis
  proof (cases "find ?stop (attached h)")
    case None
    then have "\<forall>dev \<in> set (attached h). readable dev \<and> \<not> matches p dev"
      by (auto simp: find_None_iff)
    then show ?thesis using that(5) ok by blast
  next
    case (Some dev)
    then obtain k where k: "k < length (attached h)" "?stop (attached h ! k)"
      "\<forall>j<k. \<not> ?stop (attached h ! j)"
      unfolding find_Some_iff by blast
    show ?thesis
    proof (cases "readable (attached h ! k)")
      case True
      then have "selects h p k" using k ok by (auto simp: selects_def)
      then show ?thesis by (rule that(4))
    next
      case False
      then show ?thesis using that(3) [of k] k ok by blast
    qed
  qed
qed

section \<open>The reset decision\<close>

lemma cout_lines_append [simp]: "cout_lines (xs @ ys) = cout_lines xs @ cout_lines ys"
  by (induction xs rule: cout_lines.induct) simp_all

lemma scan_events_set: "e \<in> set (scan_events k) \<longleftrightarrow> (\<exists>j<k. e = GetDeviceDescriptor j 0)"
  by (auto simp: scan_events_def)

lemma cout_lines_scan [simp]: "cout_lines (scan_events k) = []"
  unfolding scan_events_def by (induction k) simp_all

lemma reset_matched_open_failed:
  assumes "open_rc dev \<noteq> 0"
  shows "reset_matched h dev i desc product manufacturer =
           ([Open i (open_rc dev)], Some HandleOpenError)"
  using assms by (simp add: reset_matched_def HandleOpenError_def)

lemma reset_matched_skip:
  assumes "open_rc dev = 0" and "read_strings h dev desc = (a_p, a_m)"
    and "\<not> should_reset product manufacturer a_p a_m"
  shows "reset_matched h dev i desc product manufacturer =
           ([Open i 0, GetStringDescriptorAscii i (iProduct desc),
             GetStringDescriptorAscii i (iManufacturer desc), Close i], None)"
  using assms by (simp add: reset_matched_def)

lemma reset_matched_proceed:
  assumes "open_rc dev = 0" and "read_strings h dev desc = (a_p, a_m)"
    and "should_reset product manufacturer a_p a_m"
  shows "reset_matched h dev i desc product manufacturer =
           ([Open i 0, GetStringDescriptorAscii i (iProduct desc),
             GetStringDescriptorAscii i (iManufacturer desc),
             Cout (''Product: '' @ a_p @ '' (length: '' @ dec (length a_p) @ '')''),
             Cout (''Manufacturer: '' @ a_m @ '' (length: '' @ dec (length a_m) @ '')''),
             Cout ''Resetting this device ...'',
             ResetDevice i (reset_device_rc dev)]
            @ (if reset_device_rc dev \<noteq> 0 then [Cout reset_warning] else [])
            @ [Cout ''Finished.'', Close i], None)"
  using assms by (simp add: reset_matched_def)

lemma example_selects:
  "selects (example_host [example_hub, example_keyboard, example_keyboard]) (0x413c, 0x2003) 1"
  by (simp add: selects_def example_host_def example_hub_def example_keyboard_def
        readable_def matches_def)

lemma example_strings:
  "read_strings (example_host ds) example_keyboard (device_descriptor example_keyboard)
     = (''Dell USB Keyboard'', ''Dell'')"
  by (simp add: read_strings_def example_host_def example_keyboard_def
        libusb_get_string_descriptor_ascii_def c_string_def)

text \<open>
  C1. With both expected strings supplied, for the device that the scan selects and
  opens, with the strings \<open>a_p\<close> and \<open>a_m\<close> read from it: the reset command is issued if
  and only if \<open>a_p\<close> differs from the expected product string and \<open>a_m\<close> differs from the
  expected manufacturer string. When one of them is equal, nothing is written.
\<close>

theorem conditional_reset_iff:
  assumes "selects h p k" and "open_rc (attached h ! k) = 0"
    and "read_strings h (attached h ! k) (device_descriptor (attached h ! k)) = (a_p, a_m)"
  shows "((\<exists>e \<in> set (fst (reset h p (Some e_p) (Some e_m))). is_reset e)
            \<longleftrightarrow> a_p \<noteq> e_p \<and> a_m \<noteq> e_m)
         \<and> (a_p \<noteq> e_p \<and> a_m \<noteq> e_m \<longrightarrow>
              ResetDevice k (reset_device_rc (attached h ! k))
                \<in> set (fst (reset h p (Some e_p) (Some e_m))))
         \<and> (a_p = e_p \<or> a_m = e_m \<longrightarrow>
              cout_lines (fst (reset h p (Some e_p) (Some e_m))) = [])"
proof (cases "should_reset (Some e_p) (Some e_m) a_p a_m")
  case True
  then have d: "a_p \<noteq> e_p \<and> a_m \<noteq> e_m" by (simp add: should_reset_def)
  show ?thesis
    using d
    by (simp add: reset_selected [OF assms(1)] reset_matched_proceed [OF assms(2,3) True])
next
  case False
  then have d: "a_p = e_p \<or> a_m = e_m" by (auto simp: should_reset_def)
  show ?thesis
    using d
    by (auto simp add: reset_selected [OF assms(1)] reset_matched_skip [OF assms(2,3) False]
          scan_events_set)
qed

theorem conditional_reset_iff_witness:
  "cout_lines (fst (reset (example_host [example_hub, example_keyboard, example_keyboard])
                      (0x413c, 0x2003) (Some ''Dell USB Keyboard'') (Some ''Dell''))) = []
   \<and> ResetDevice 1 0
        \<in> set (fst (reset (example_host [example_hub, example_keyboard, example_keyboard])
                      (0x413c, 0x2003) (Some '''') (Some '''')))"
proof -
  let ?h = "example_host [example_hub, example_keyboard, example_keyboard]"
  have o: "open_rc (attached ?h ! 1) = 0" by (simp add: example_host_def example_keyboard_def)
  have s: "read_strings ?h (attached ?h ! 1) (device_descriptor (attached ?h ! 1))
             = (''Dell USB Keyboard'', ''Dell'')"
    using example_strings by (simp add: example_host_def)
  have r: "reset_device_rc (attached ?h ! 1) = 0"
    by (simp add: example_host_def example_keyboard_def)
  show ?thesis
    using conditional_reset_iff [OF example_selects o s, of "''Dell USB Keyboard''" "''Dell''"]
      conditional_reset_iff [OF example_selects o s, of "''''" "''''"] r
    by simp
qed

section \<open>What a run of \<open>main\<close> looks like\<close>

lemma example_parse: "parse_argv1 ''413c:2003'' = Inr (0x413c, 0x2003)"
  by (simp add: parse_defs)

lemma main_two_args:
  assumes "parse_argv1 a = Inr p"
  shows "main h [prog, a] =
           (case snd (reset h p None None) of
              Some e \<Rightarrow> (fst (reset h p None None) @ diagnostic e, 1)
            | None \<Rightarrow> (fst (reset h p None None), 0))"
  using assms by (simp add: main_def case_prod_beta)

lemma main_four_args:
  assumes "parse_argv1 a = Inr p"
  shows "main h [prog, a, e_p, e_m] =
           (case snd (reset h p (Some e_p) (Some e_m)) of
              Some e \<Rightarrow> (fst (reset h p (Some e_p) (Some e_m)) @ diagnostic e, 1)
            | None \<Rightarrow> (fst (reset h p (Some e_p) (Some e_m)), 0))"
  using assms by (simp add: main_def case_prod_beta)

lemma main_parse_failed:
  assumes "length argv = 2 \<or> length argv = 4" and "parse_argv1 (argv ! 1) = Inl e"
  shows "main h argv = (diagnostic e, 1)"
  using assms by (auto simp: main_def)

lemma main_usage:
  assumes "length argv \<noteq> 2" and "length argv \<noteq> 4"
  shows "snd (main h argv) = 0" and "\<forall>e \<in> set (fst (main h argv)). is_cout e"
  using assms by (auto simp: main_def split: list.splits)

text \<open>The expected strings that \<open>main\<close> passes on: none with two arguments, both with four.\<close>

lemma main_reset:
  assumes "length argv = 2 \<or> length argv = 4" and "parse_argv1 (argv ! 1) = Inr p"
  obtains product manufacturer where
    "(product = None) = (manufacturer = None)"
    "length argv = 2 \<longrightarrow> product = None"
    "main h argv =
       (case snd (reset h p product manufacturer) of
          Some e \<Rightarrow> (fst (reset h p product manufacturer) @ diagnostic e, 1)
        | None \<Rightarrow> (fst (reset h p product manufacturer), 0))"
proof (cases "length argv = 2")
  case True
  then have "main h argv =
       (case snd (reset h p None None) of
          Some e \<Rightarrow> (fst (reset h p None None) @ diagnostic e, 1)
        | None \<Rightarrow> (fst (reset h p None None), 0))"
    using assms(2) by (simp add: main_def case_prod_beta)
  then show ?thesis using that [of None None] by simp
next
  case False
  then have "length argv = 4" using assms(1) by simp
  then have "main h argv =
       (case snd (reset h p (Some (argv ! 2)) (Some (argv ! 3))) of
          Some e \<Rightarrow> (fst (reset h p (Some (argv ! 2)) (Some (argv ! 3))) @ diagnostic e, 1)
        | None \<Rightarrow> (fst (reset h p (Some (argv ! 2)) (Some (argv ! 3))), 0))"
    using assms(2) by (simp add: main_def case_prod_beta)
  then show ?thesis using that [of "Some (argv ! 2)" "Some (argv ! 3)"] False by simp
qed

text \<open>
  The transcripts of the README: the keyboard is reset when no strings are expected, and
  left alone, with no output, when it returns the expected strings.
\<close>

lemma readme_unconditional:
  "main (example_host [example_hub, example_keyboard]) [''usb_reset'', ''413c:2003''] =
     ([LibusbInit 0, GetDeviceList 2, GetDeviceDescriptor 0 0, GetDeviceDescriptor 1 0,
       Open 1 0, GetStringDescriptorAscii 1 2, GetStringDescriptorAscii 1 1,
       Cout ''Product: Dell USB Keyboard (length: 17)'',
       Cout ''Manufacturer: Dell (length: 4)'',
       Cout ''Resetting this device ...'',
       ResetDevice 1 0,
       Cout ''Finished.'',
       Close 1, FreeDeviceList, LibusbExit], 0)"
  by (simp add: main_def example_parse reset_def DeviceList_ctor_def
        libusb_get_device_list_def example_host_def example_hub_def example_keyboard_def
        reset_loop.simps DeviceList_size_def DeviceList_index_def reset_matched_def
        read_strings_def libusb_get_string_descriptor_ascii_def c_string_def
        should_reset_def dec.simps Let_def)

lemma readme_conditional:
  "main (example_host [example_hub, example_keyboard])
     [''usb_reset'', ''413c:2003'', ''Dell USB Keyboard'', ''Dell''] =
     ([LibusbInit 0, GetDeviceList 2, GetDeviceDescriptor 0 0, GetDeviceDescriptor 1 0,
       Open 1 0, GetStringDescriptorAscii 1 2, GetStringDescriptorAscii 1 1,
       Close 1, FreeDeviceList, LibusbExit], 0)"
  by (simp add: main_def example_parse reset_def DeviceList_ctor_def
        libusb_get_device_list_def example_host_def example_hub_def example_keyboard_def
        reset_loop.simps DeviceList_size_def DeviceList_index_def reset_matched_def
        read_strings_def libusb_get_string_descriptor_ascii_def c_string_def
        should_reset_def dec.simps Let_def)

text \<open>A reset command in a run is issued on the device that the scan selected and opened.\<close>

lemma reset_only_on_selected:
  assumes "e \<in> set (fst (reset h p product manufacturer))" and "is_reset e"
  shows "\<exists>k. selects h p k \<and> open_rc (attached h ! k) = 0
             \<and> e = ResetDevice k (reset_device_rc (attached h ! k))"
proof (cases rule: reset_cases [where h = h and p = p])
  case init_failed
  then show ?thesis using assms by (auto simp: reset_init_failed)
next
  case list_failed
  then show ?thesis using assms by (auto simp: reset_list_failed)
next
  case (unreadable j)
  then show ?thesis using assms by (auto simp: reset_unreadable scan_events_set)
next
  case (selected k)
  have "open_rc (attached h ! k) = 0 \<and> e = ResetDevice k (reset_device_rc (attached h ! k))"
    using assms
    by (auto simp: reset_selected [OF selected] reset_matched_def case_prod_beta
          scan_events_set split: if_splits)
  then show ?thesis using selected by blast
next
  case none
  then show ?thesis using assms by (auto simp: reset_none scan_events_set)
qed

text \<open>
  C2. With two arguments (no expected strings), when the scan selects a device and its
  handle opens, the reset command is issued on that device and the program exits with 0,
  whatever the device answers to the string requests and whatever the buffer held. The
  reset command is issued in exactly these invocations: the condition does not mention
  the strings.
\<close>

theorem unconditional_reset_proceeds:
  assumes "parse_argv1 a = Inr p"
  shows "(selects h p k \<and> open_rc (attached h ! k) = 0 \<longrightarrow>
            ResetDevice k (reset_device_rc (attached h ! k)) \<in> set (fst (main h [prog, a]))
            \<and> snd (main h [prog, a]) = 0)
         \<and> ((\<exists>e \<in> set (fst (main h [prog, a])). is_reset e)
              \<longleftrightarrow> (\<exists>j. selects h p j \<and> open_rc (attached h ! j) = 0))"
proof -
  have go: "ResetDevice j (reset_device_rc (attached h ! j)) \<in> set (fst (main h [prog, a]))
            \<and> snd (main h [prog, a]) = 0"
    if j: "selects h p j" and o: "open_rc (attached h ! j) = 0" for j
  proof -
    obtain a_p a_m where
      s: "read_strings h (attached h ! j) (device_descriptor (attached h ! j)) = (a_p, a_m)"
      by (cases "read_strings h (attached h ! j) (device_descriptor (attached h ! j))")
    have d: "should_reset None None a_p a_m" by (simp add: should_reset_def)
    show ?thesis
      by (simp add: main_two_args [OF assms] reset_selected [OF j]
            reset_matched_proceed [OF o s d])
  qed
  have bwd: "\<exists>j. selects h p j \<and> open_rc (attached h ! j) = 0"
    if mem: "x \<in> set (fst (main h [prog, a]))" and rst: "is_reset x" for x
  proof -
    have "x \<in> set (fst (reset h p None None))"
      using mem rst unfolding main_two_args [OF assms]
      by (auto simp: diagnostic_def split: option.splits)
    from reset_only_on_selected [OF this rst] show ?thesis by blast
  qed
  have forth: "\<exists>e \<in> set (fst (main h [prog, a])). is_reset e"
    if "selects h p j" and "open_rc (attached h ! j) = 0" for j
    using go [OF that] is_reset.simps(1) by blast
  show ?thesis using go bwd forth by blast
qed

theorem unconditional_reset_proceeds_witness:
  "ResetDevice 1 0
     \<in> set (fst (main (example_host [example_hub, example_keyboard, example_keyboard])
                   [''usb_reset'', ''413c:2003'']))
   \<and> snd (main (example_host [example_hub, example_keyboard, example_keyboard])
             [''usb_reset'', ''413c:2003'']) = 0"
proof -
  let ?h = "example_host [example_hub, example_keyboard, example_keyboard]"
  have o: "open_rc (attached ?h ! 1) = 0" by (simp add: example_host_def example_keyboard_def)
  have r: "reset_device_rc (attached ?h ! 1) = 0"
    by (simp add: example_host_def example_keyboard_def)
  show ?thesis
    using unconditional_reset_proceeds [OF example_parse, of ?h 1 "''usb_reset''"]
      example_selects o r
    by simp
qed

text \<open>
  C10. When \<open>reset\<close> is called with exactly one of the two expected strings, it never
  issues the reset command, and when the scan selects a device it writes nothing.
\<close>

theorem one_expected_string_never_resets:
  assumes "(product = None) \<noteq> (manufacturer = None)"
  shows "(\<forall>e \<in> set (fst (reset h p product manufacturer)). \<not> is_reset e)
         \<and> (selects h p k \<longrightarrow> cout_lines (fst (reset h p product manufacturer)) = [])"
proof -
  have skip: "\<not> should_reset product manufacturer a_p a_m" for a_p a_m
    using assms by (auto simp: should_reset_def)
  have sel: "(\<forall>e \<in> set (fst (reset h p product manufacturer)). \<not> is_reset e)
             \<and> cout_lines (fst (reset h p product manufacturer)) = []"
    if k: "selects h p k" for k
  proof (cases "open_rc (attached h ! k) = 0")
    case True
    obtain a_p a_m where
      s: "read_strings h (attached h ! k) (device_descriptor (attached h ! k)) = (a_p, a_m)"
      by (cases "read_strings h (attached h ! k) (device_descriptor (attached h ! k))")
    show ?thesis
      by (auto simp: reset_selected [OF k] reset_matched_skip [OF True s skip] scan_events_set)
  next
    case False
    show ?thesis
      by (auto simp: reset_selected [OF k] reset_matched_open_failed [OF False] scan_events_set)
  qed
  have "\<forall>e \<in> set (fst (reset h p product manufacturer)). \<not> is_reset e"
  proof (cases rule: reset_cases [where h = h and p = p])
    case init_failed
    then show ?thesis by (simp add: reset_init_failed)
  next
    case list_failed
    then show ?thesis by (simp add: reset_list_failed)
  next
    case (unreadable j)
    then show ?thesis by (auto simp: reset_unreadable scan_events_set)
  next
    case (selected j)
    then show ?thesis using sel by blast
  next
    case none
    then show ?thesis by (auto simp: reset_none scan_events_set)
  qed
  then show ?thesis using sel by blast
qed

theorem one_expected_string_never_resets_witness:
  "cout_lines (fst (reset (example_host [example_hub, example_keyboard, example_keyboard])
                      (0x413c, 0x2003) (Some ''no such product'') None)) = []
   \<and> \<not> list_ex is_reset
          (fst (reset (example_host [example_hub, example_keyboard, example_keyboard])
                  (0x413c, 0x2003) (Some ''no such product'') None))"
proof -
  have d: "(Some ''no such product'' = None) \<noteq> ((None :: string option) = None)" by simp
  show ?thesis
    using one_expected_string_never_resets [OF d, of
        "example_host [example_hub, example_keyboard, example_keyboard]" "(0x413c, 0x2003)" 1]
      example_selects
    by (simp add: list_ex_iff)
qed

section \<open>The scan\<close>

lemma scan_events_Suc: "scan_events (Suc k) = scan_events k @ [GetDeviceDescriptor k 0]"
  by (simp add: scan_events_def)

lemma filter_scan_events [simp]:
  "filter is_descriptor_read (scan_events k) = scan_events k"
  "filter is_open (scan_events k) = []"
  by (induction k) (simp_all add: scan_events_Suc, simp_all add: scan_events_def)

lemma reset_matched_events:
  assumes "e \<in> set (fst (reset_matched h dev i desc product manufacturer))"
  shows "\<not> is_descriptor_read e \<and> (device_of e = None \<or> device_of e = Some i)"
  using assms by (auto simp: reset_matched_def case_prod_beta split: if_splits)

lemma reset_matched_opens:
  "filter is_open (fst (reset_matched h dev i desc product manufacturer))
     = [Open i (open_rc dev)]"
  by (simp add: reset_matched_def case_prod_beta)

lemma reset_opens_once:
  "length (filter is_open (fst (reset h p product manufacturer))) \<le> 1"
proof (cases rule: reset_cases [where h = h and p = p])
  case init_failed
  then show ?thesis by (simp add: reset_init_failed)
next
  case list_failed
  then show ?thesis by (simp add: reset_list_failed)
next
  case (unreadable j)
  then show ?thesis by (simp add: reset_unreadable)
next
  case (selected j)
  then show ?thesis by (simp add: reset_selected reset_matched_opens)
next
  case none
  then show ?thesis by (simp add: reset_none)
qed

text \<open>
  C5. When the scan selects device \<open>k\<close> (the first with the target ids), the descriptors
  are read from device 0 up to device \<open>k\<close> in the order of the snapshot, no call concerns
  a device after \<open>k\<close>, every call other than a descriptor read concerns device \<open>k\<close>, and
  only device \<open>k\<close> is opened. No invocation opens more than one device.
\<close>

theorem scan_selects_first_match:
  "length (filter is_open (fst (reset h p product manufacturer))) \<le> 1
   \<and> (selects h p k \<longrightarrow>
        filter is_descriptor_read (fst (reset h p product manufacturer))
          = scan_events (Suc k)
        \<and> (\<forall>e \<in> set (fst (reset h p product manufacturer)).
              \<forall>j. device_of e = Some j \<longrightarrow> j \<le> k)
        \<and> (\<forall>e \<in> set (fst (reset h p product manufacturer)).
              \<not> is_descriptor_read e \<longrightarrow> device_of e = None \<or> device_of e = Some k)
        \<and> filter is_open (fst (reset h p product manufacturer))
            = [Open k (open_rc (attached h ! k))])"
proof (intro conjI impI)
  show "length (filter is_open (fst (reset h p product manufacturer))) \<le> 1"
    by (rule reset_opens_once)
next
  assume k: "selects h p k"
  let ?m = "fst (reset_matched h (attached h ! k) k (device_descriptor (attached h ! k))
                   product manufacturer)"
  have t: "fst (reset h p product manufacturer) =
             [LibusbInit 0, GetDeviceList (int (length (attached h)))] @ scan_events k
               @ [GetDeviceDescriptor k 0] @ ?m @ [FreeDeviceList, LibusbExit]"
    by (simp add: reset_selected [OF k])
  have m: "\<forall>e \<in> set ?m. \<not> is_descriptor_read e \<and> (device_of e = None \<or> device_of e = Some k)"
    using reset_matched_events by blast
  have fm: "filter is_descriptor_read ?m = []"
    using m by (simp add: filter_empty_conv)
  show "filter is_descriptor_read (fst (reset h p product manufacturer)) = scan_events (Suc k)"
    unfolding t by (simp add: fm scan_events_Suc)
  show "\<forall>e \<in> set (fst (reset h p product manufacturer)). \<forall>j. device_of e = Some j \<longrightarrow> j \<le> k"
    unfolding t using m by (auto simp: scan_events_set)
  show "\<forall>e \<in> set (fst (reset h p product manufacturer)).
          \<not> is_descriptor_read e \<longrightarrow> device_of e = None \<or> device_of e = Some k"
    unfolding t using m by (auto simp: scan_events_set)
  show "filter is_open (fst (reset h p product manufacturer))
          = [Open k (open_rc (attached h ! k))]"
    unfolding t by (simp add: reset_matched_opens)
qed

theorem scan_selects_first_match_witness:
  "filter is_descriptor_read
     (fst (reset (example_host [example_hub, example_keyboard, example_keyboard])
             (0x413c, 0x2003) None None))
     = [GetDeviceDescriptor 0 0, GetDeviceDescriptor 1 0]
   \<and> filter is_open
       (fst (reset (example_host [example_hub, example_keyboard, example_keyboard])
               (0x413c, 0x2003) None None))
     = [Open 1 0]"
proof -
  let ?h = "example_host [example_hub, example_keyboard, example_keyboard]"
  have o: "open_rc (attached ?h ! 1) = 0" by (simp add: example_host_def example_keyboard_def)
  show ?thesis
    using scan_selects_first_match [of ?h "(0x413c, 0x2003)" None None 1] example_selects o
    by (simp add: scan_events_def)
qed

text \<open>
  C6. When the session opens, the enumeration succeeds and every device of the snapshot
  has a readable descriptor with other ids than the target, the program writes
  \<open>No such USB device found.\<close> and nothing else, releases the snapshot and the session,
  and exits with 0.
\<close>

theorem no_match_is_normal:
  assumes "length argv = 2 \<or> length argv = 4" and "parse_argv1 (argv ! 1) = Inr p"
    and "init_rc h = 0" and "\<not> list_error h < 0"
    and "\<forall>dev \<in> set (attached h). readable dev \<and> \<not> matches p dev"
  shows "main h argv =
           ([LibusbInit 0, GetDeviceList (int (length (attached h)))]
              @ scan_events (length (attached h))
              @ [Cout ''No such USB device found.'', FreeDeviceList, LibusbExit],
            0)
         \<and> cout_lines (fst (main h argv)) = [''No such USB device found.'']"
proof -
  obtain product manufacturer where
    "main h argv =
       (case snd (reset h p product manufacturer) of
          Some e \<Rightarrow> (fst (reset h p product manufacturer) @ diagnostic e, 1)
        | None \<Rightarrow> (fst (reset h p product manufacturer), 0))"
    using main_reset [OF assms(1,2)] by blast
  then show ?thesis by (simp add: reset_none [OF assms(3,4,5)])
qed

theorem no_match_is_normal_witness:
  "main (example_host [example_hub]) [''usb_reset'', ''413c:2003''] =
     ([LibusbInit 0, GetDeviceList 1, GetDeviceDescriptor 0 0,
       Cout ''No such USB device found.'', FreeDeviceList, LibusbExit], 0)"
proof -
  let ?h = "example_host [example_hub]"
  let ?argv = "[''usb_reset'', ''413c:2003'']"
  have l: "length ?argv = 2 \<or> length ?argv = 4" by simp
  have p: "parse_argv1 (?argv ! 1) = Inr (0x413c, 0x2003)" using example_parse by simp
  have i: "init_rc ?h = 0" and e: "\<not> list_error ?h < 0" by (simp_all add: example_host_def)
  have n: "\<forall>dev \<in> set (attached ?h). readable dev \<and> \<not> matches (0x413c, 0x2003) dev"
    by (simp add: example_host_def example_hub_def readable_def matches_def)
  show ?thesis
    using no_match_is_normal [OF l p i e n] by (simp add: example_host_def scan_events_def)
qed

section \<open>Soft failure of the reset\<close>




section \<open>Fatal errors and the exit code\<close>

lemma find_stop_at:
  assumes "k < length ds" and "\<forall>j<k. readable (ds ! j) \<and> \<not> matches p (ds ! j)"
    and "\<not> readable (ds ! k) \<or> matches p (ds ! k)"
  shows "find (\<lambda>dev. \<not> readable dev \<or> matches p dev) ds = Some (ds ! k)"
  unfolding find_Some_iff using assms by (intro exI [of _ k]) auto

lemma find_stop_none:
  assumes "\<forall>dev \<in> set ds. readable dev \<and> \<not> matches p dev"
  shows "find (\<lambda>dev. \<not> readable dev \<or> matches p dev) ds = None"
  using assms by (auto simp: find_None_iff)

lemma fatal_error_reset:
  assumes "length argv = 2 \<or> length argv = 4" and "parse_argv1 (argv ! 1) = Inr p"
  shows "fatal_error h argv = snd (reset h p product manufacturer)"
proof -
  have f: "fatal_error h argv =
     (if init_rc h \<noteq> 0 then Some LibraryInitError
      else if list_error h < 0 then Some EnumerationError
      else
        (case find (\<lambda>dev. \<not> readable dev \<or> matches p dev) (attached h) of
           None \<Rightarrow> None
         | Some dev \<Rightarrow>
             if \<not> readable dev then Some DescriptorReadError
             else if open_rc dev \<noteq> 0 then Some HandleOpenError
             else None))"
    using assms by (auto simp: fatal_error_def)
  show ?thesis
  proof (cases rule: reset_cases [where h = h and p = p])
    case init_failed
    then show ?thesis by (simp add: f reset_init_failed)
  next
    case list_failed
    then show ?thesis by (simp add: f reset_list_failed)
  next
    case (unreadable k)
    then have s: "find (\<lambda>dev. \<not> readable dev \<or> matches p dev) (attached h)
                    = Some (attached h ! k)"
      by (intro find_stop_at) auto
    show ?thesis unfolding f s using unreadable by (simp add: reset_unreadable)
  next
    case (selected k)
    then have ok: "init_rc h = 0" "\<not> list_error h < 0" "readable (attached h ! k)"
      by (simp_all add: selects_def)
    have s: "find (\<lambda>dev. \<not> readable dev \<or> matches p dev) (attached h)
               = Some (attached h ! k)"
      using selected by (intro find_stop_at) (auto simp: selects_def)
    show ?thesis
      unfolding f s using ok
      by (simp add: reset_selected [OF selected] reset_matched_def HandleOpenError_def
            case_prod_beta)
  next
    case none
    then have s: "find (\<lambda>dev. \<not> readable dev \<or> matches p dev) (attached h) = None"
      by (intro find_stop_none)
    show ?thesis unfolding f s using none by (simp add: reset_none)
  qed
qed

text \<open>The parser raises nothing but its three errors.\<close>

lemma parse_argv1_errors:
  assumes "parse_argv1 inp = Inl e"
  shows "parser_error e"
  using assms
  by (auto simp: parse_argv1_def substr_def parser_error_def FormatError_def
        InvalidVendorId_def InvalidProductId_def case_prod_beta Let_def
        split: if_splits)

lemma aborted_by_after:
  assumes "\<forall>x \<in> set pre. \<not> fatal_failure x" and "fatal_failure f"
  shows "aborted_by e (pre @ f # post)
           = (error_of f = Some e \<and> list_all (\<lambda>x. releases x \<noteq> None) post)"
proof -
  have "dropWhile (\<lambda>x. \<not> fatal_failure x) (pre @ f # post) = f # post"
    using assms by (simp add: dropWhile_append2)
  then show ?thesis by (simp add: aborted_by_def)
qed

lemma scan_events_no_failure: "\<forall>e \<in> set (scan_events k). \<not> fatal_failure e"
  by (auto simp: scan_events_set)

lemma library_errors_not_parser:
  "\<not> parser_error LibraryInitError" "\<not> parser_error EnumerationError"
  "\<not> parser_error DescriptorReadError" "\<not> parser_error HandleOpenError"
  by (simp_all add: parser_error_def LibraryInitError_def EnumerationError_def
        DescriptorReadError_def HandleOpenError_def FormatError_def InvalidVendorId_def
        InvalidProductId_def)

lemma reset_fatal:
  assumes "snd (reset h p product manufacturer) = Some e"
  shows "cout_lines (fst (reset h p product manufacturer)) = []
         \<and> aborted_by e (fst (reset h p product manufacturer))
         \<and> \<not> parser_error e
         \<and> (\<forall>x \<in> set (fst (reset h p product manufacturer)). \<not> is_reset x)"
proof (cases rule: reset_cases [where h = h and p = p])
  case init_failed
  then have e: "e = LibraryInitError" using assms by (simp add: reset_init_failed)
  show ?thesis
    using init_failed aborted_by_after [of "[]" "LibusbInit (init_rc h)" e "[]"]
    by (simp add: reset_init_failed e library_errors_not_parser)
next
  case list_failed
  then have e: "e = EnumerationError" using assms by (simp add: reset_list_failed)
  show ?thesis
    using list_failed
      aborted_by_after [of "[LibusbInit 0]" "GetDeviceList (list_error h)" e "[LibusbExit]"]
    by (simp add: reset_list_failed e library_errors_not_parser)
next
  case (unreadable k)
  then have e: "e = DescriptorReadError" using assms by (simp add: reset_unreadable)
  let ?pre = "[LibusbInit 0, GetDeviceList (int (length (attached h)))] @ scan_events k"
  let ?f = "GetDeviceDescriptor k (get_device_descriptor_rc (attached h ! k))"
  have "aborted_by e (?pre @ ?f # [FreeDeviceList, LibusbExit])"
    using unreadable(5) scan_events_no_failure
    by (subst aborted_by_after) (auto simp: readable_def e)
  then show ?thesis
    using unreadable
    by (auto simp: reset_unreadable scan_events_set e library_errors_not_parser)
next
  case (selected k)
  let ?dev = "attached h ! k"
  let ?pre = "[LibusbInit 0, GetDeviceList (int (length (attached h)))] @ scan_events k
                @ [GetDeviceDescriptor k 0]"
  have bad: "open_rc ?dev \<noteq> 0"
    using assms
    by (auto simp: reset_selected [OF selected] reset_matched_def case_prod_beta
          split: if_splits)
  have e: "e = HandleOpenError"
    using assms by (simp add: reset_selected [OF selected] reset_matched_open_failed [OF bad])
  have "aborted_by e (?pre @ Open k (open_rc ?dev) # [FreeDeviceList, LibusbExit])"
    using bad scan_events_no_failure
    by (subst aborted_by_after) (auto simp: e)
  then show ?thesis
    by (auto simp: reset_selected [OF selected] reset_matched_open_failed [OF bad]
          scan_events_set e library_errors_not_parser)
next
  case none
  then show ?thesis using assms by (simp add: reset_none)
qed

text \<open>
  C8. An invocation that meets a fatal error (of the parser, the library initialisation,
  the enumeration, a descriptor read or the handle open) exits with 1 and writes exactly
  the two lines \<open>Error occured.\<close> and \<open>Detail: \<close> with the message of the error, at
  the end of the run. The pipeline is aborted: after an error of the parser the run is
  the diagnostic alone, with no call to the library; otherwise the first call that fails
  is the one whose failure is the error, and between it and the diagnostic there is
  nothing but the release of the resources held. The reset command is never issued.
  Every other invocation exits with 0.
\<close>

theorem fatal_error_exits_1:
  "(case fatal_error h argv of
      Some e \<Rightarrow>
        snd (main h argv) = 1
        \<and> cout_lines (fst (main h argv)) = [''Error occured.'', ''Detail: '' @ what e]
        \<and> (\<exists>calls. fst (main h argv) = calls @ diagnostic e \<and> aborted_by e calls)
        \<and> (parser_error e \<longrightarrow> fst (main h argv) = diagnostic e)
        \<and> \<not> list_ex is_reset (fst (main h argv))
    | None \<Rightarrow> snd (main h argv) = 0)"
proof (cases "length argv = 2 \<or> length argv = 4")
  case False
  then have "fatal_error h argv = None" by (simp add: fatal_error_def)
  then show ?thesis using False main_usage(1) [of argv h] by simp
next
  case True
  show ?thesis
  proof (cases "parse_argv1 (argv ! 1)")
    case (Inl e)
    have f: "fatal_error h argv = Some e" using True Inl by (auto simp: fatal_error_def)
    have a: "aborted_by e []"
      using parse_argv1_errors [OF Inl] by (simp add: aborted_by_def)
    have r: "fst (main h argv) = [] @ diagnostic e" "snd (main h argv) = 1"
      by (simp_all add: main_parse_failed [OF True Inl])
    have "\<exists>calls. fst (main h argv) = calls @ diagnostic e \<and> aborted_by e calls"
      using r(1) a by blast
    then show ?thesis
      using r by (simp add: f) (simp add: diagnostic_def)
  next
    case (Inr p)
    obtain product manufacturer where m:
      "main h argv =
         (case snd (reset h p product manufacturer) of
            Some e \<Rightarrow> (fst (reset h p product manufacturer) @ diagnostic e, 1)
          | None \<Rightarrow> (fst (reset h p product manufacturer), 0))"
      using main_reset [OF True Inr] by blast
    note f = fatal_error_reset [OF True Inr, of h product manufacturer]
    show ?thesis
    proof (cases "snd (reset h p product manufacturer)")
      case None
      then show ?thesis by (simp add: f m)
    next
      case (Some e)
      note rf = reset_fatal [OF Some]
      have r: "fst (main h argv) = fst (reset h p product manufacturer) @ diagnostic e"
        "snd (main h argv) = 1"
        by (simp_all add: m Some)
      have "\<exists>calls. fst (main h argv) = calls @ diagnostic e \<and> aborted_by e calls"
        using r(1) rf by blast
      then show ?thesis
        using rf r(2) unfolding f Some
        by (simp add: r(1) list_ex_iff) (simp add: diagnostic_def)
    qed
  qed
qed

theorem fatal_error_exits_1_witness:
  "main (example_host [example_hub, example_locked]) [''usb_reset'', ''413c:2003''] =
     ([LibusbInit 0, GetDeviceList 2, GetDeviceDescriptor 0 0, GetDeviceDescriptor 1 0,
       Open 1 (- 3), FreeDeviceList, LibusbExit, Cout ''Error occured.'',
       Cout ''Detail: Failed to get handle for usb device. Insufficient privilege?''], 1)
   \<and> main (example_host [example_hub, example_keyboard]) [''usb_reset'', ''41g3:2003'']
       = ([Cout ''Error occured.'', Cout ''Detail: Invalid vendor_id''], 1)
   \<and> snd (main (example_host [example_hub, example_keyboard]) [''usb_reset'', ''413c:2003''])
       = 0"
proof -
  let ?h = "example_host [example_hub, example_locked]"
  let ?g = "example_host [example_hub, example_keyboard]"
  let ?argv = "[''usb_reset'', ''413c:2003'']"
  let ?bad = "[''usb_reset'', ''41g3:2003'']"
  have run: "main ?h ?argv =
     ([LibusbInit 0, GetDeviceList 2, GetDeviceDescriptor 0 0, GetDeviceDescriptor 1 0,
       Open 1 (- 3), FreeDeviceList, LibusbExit, Cout ''Error occured.'',
       Cout ''Detail: Failed to get handle for usb device. Insufficient privilege?''], 1)"
    by (simp add: main_def example_parse reset_def DeviceList_ctor_def
          libusb_get_device_list_def example_host_def example_hub_def example_locked_def
          example_keyboard_def reset_loop.simps DeviceList_size_def DeviceList_index_def
          reset_matched_def diagnostic_def Let_def)
  have fh: "fatal_error ?h ?argv = Some HandleOpenError"
    by (simp add: fatal_error_def example_parse example_host_def example_hub_def
          example_locked_def example_keyboard_def readable_def matches_def)
  have fg: "fatal_error ?g ?argv = None"
    by (simp add: fatal_error_def example_parse example_host_def example_hub_def
          example_keyboard_def readable_def matches_def)
  have fb: "fatal_error ?g ?bad = Some InvalidVendorId"
    by (simp add: fatal_error_def parse_argv1_error_kinds)
  have pe: "parser_error InvalidVendorId" by (simp add: parser_error_def)
  have "fst (main ?g ?bad) = diagnostic InvalidVendorId \<and> snd (main ?g ?bad) = 1"
    using fatal_error_exits_1 [of ?g ?bad] pe unfolding fb by simp
  then have bad: "main ?g ?bad = ([Cout ''Error occured.'', Cout ''Detail: Invalid vendor_id''], 1)"
    by (simp add: prod_eq_iff diagnostic_def InvalidVendorId_def)
  show ?thesis
    using fatal_error_exits_1 [of ?h ?argv] fatal_error_exits_1 [of ?g ?argv] bad
    unfolding fh fg by (simp add: run)
qed

section \<open>Release of resources\<close>

lemma acquired_append [simp]: "acquired (xs @ ys) = acquired xs @ acquired ys"
  by (simp add: acquired_def List.map_filter_def)

lemma released_append [simp]: "released (xs @ ys) = released xs @ released ys"
  by (simp add: released_def List.map_filter_def)

lemma acquired_Cons [simp]:
  "acquired (e # es) = (case acquires e of None \<Rightarrow> acquired es | Some r \<Rightarrow> r # acquired es)"
  by (simp add: acquired_def List.map_filter_def split: option.splits)

lemma released_Cons [simp]:
  "released (e # es) = (case releases e of None \<Rightarrow> released es | Some r \<Rightarrow> r # released es)"
  by (simp add: released_def List.map_filter_def split: option.splits)

lemma acquired_Nil [simp]: "acquired [] = []" and released_Nil [simp]: "released [] = []"
  by (simp_all add: acquired_def released_def List.map_filter_def)

lemma resources_scan [simp]:
  "acquired (scan_events k) = []" "released (scan_events k) = []"
  by (induction k) (simp_all add: scan_events_Suc, simp_all add: scan_events_def)

lemma unwinds_scan [simp]: "unwinds held (scan_events k @ es) = unwinds held es"
proof -
  have "unwinds held (map (\<lambda>j. GetDeviceDescriptor j 0) js @ es) = unwinds held es" for js
    by (induction js) simp_all
  then show ?thesis by (simp add: scan_events_def)
qed

lemma unwinds_cout:
  assumes "\<forall>e \<in> set ys. is_cout e"
  shows "unwinds held (xs @ ys) = unwinds held xs"
proof (induction xs arbitrary: held)
  case Nil
  have "unwinds held ys = (held = [])" using assms
  proof (induction ys)
    case Nil
    show ?case by simp
  next
    case (Cons y ys)
    then obtain s where "y = Cout s" by (cases y) simp_all
    then show ?case using Cons by simp
  qed
  then show ?case by simp
next
  case (Cons x xs)
  show ?case by (simp add: Cons.IH split: option.splits list.splits)
qed

lemma resources_cout:
  assumes "\<forall>e \<in> set ys. is_cout e"
  shows "acquired ys = []" and "released ys = []"
  using assms
proof (induction ys)
  case Nil
  { case 1 show ?case by simp }
  { case 2 show ?case by simp }
next
  case (Cons y ys)
  { case 1
    then obtain s where "y = Cout s" by (cases y) simp_all
    then show ?case using Cons 1 by simp }
  { case 2
    then obtain s where "y = Cout s" by (cases y) simp_all
    then show ?case using Cons 2 by simp }
qed

lemma reset_matched_resources:
  "unwinds held (fst (reset_matched h dev i desc product manufacturer) @ es) = unwinds held es"
  "acquired (fst (reset_matched h dev i desc product manufacturer))
     = (if open_rc dev = 0 then [Handle i] else [])"
  "released (fst (reset_matched h dev i desc product manufacturer))
     = (if open_rc dev = 0 then [Handle i] else [])"
  by (simp_all add: reset_matched_def case_prod_beta)

lemma reset_reverse_release: "reverse_release (fst (reset h p product manufacturer))"
proof (cases rule: reset_cases [where h = h and p = p])
  case init_failed
  then show ?thesis by (simp add: reset_init_failed reverse_release_def)
next
  case list_failed
  then show ?thesis by (simp add: reset_list_failed reverse_release_def)
next
  case (unreadable k)
  then show ?thesis by (simp add: reset_unreadable reverse_release_def)
next
  case (selected k)
  show ?thesis
    by (simp add: reset_selected [OF selected] reverse_release_def reset_matched_resources)
next
  case none
  then show ?thesis by (simp add: reset_none reverse_release_def)
qed

lemma reverse_release_cout:
  assumes "\<forall>e \<in> set ys. is_cout e"
  shows "reverse_release (xs @ ys) = reverse_release xs"
  using assms by (simp add: reverse_release_def unwinds_cout resources_cout)

text \<open>
  C9. In every run of \<open>reset\<close> and of \<open>main\<close> the resources are acquired in the order
  session, snapshot, handle (as far as the run gets); every release gives back the
  resource acquired last among those still held; the releases are the acquisitions in
  reverse; and nothing is held at the end.
\<close>

theorem release_in_reverse_order:
  "reverse_release (fst (reset h p product manufacturer))
   \<and> reverse_release (fst (main h argv))"
proof
  show "reverse_release (fst (reset h p product manufacturer))"
    by (rule reset_reverse_release)
  show "reverse_release (fst (main h argv))"
  proof (cases "length argv = 2 \<or> length argv = 4")
    case False
    then have "\<forall>e \<in> set (fst (main h argv)). is_cout e" by (intro main_usage(2)) simp_all
    then show ?thesis using reverse_release_cout [of "fst (main h argv)" "[]"]
      by (simp add: reverse_release_def)
  next
    case True
    show ?thesis
    proof (cases "parse_argv1 (argv ! 1)")
      case (Inl e)
      then show ?thesis
        by (simp add: main_parse_failed [OF True] diagnostic_def reverse_release_def)
    next
      case (Inr q)
      obtain pr mf where m:
        "main h argv =
           (case snd (reset h q pr mf) of
              Some e \<Rightarrow> (fst (reset h q pr mf) @ diagnostic e, 1)
            | None \<Rightarrow> (fst (reset h q pr mf), 0))"
        using main_reset [OF True Inr] by blast
      have d: "\<forall>x \<in> set (diagnostic e). is_cout x" for e by (simp add: diagnostic_def)
      show ?thesis
        unfolding m using reset_reverse_release [of h q pr mf]
        by (simp add: reverse_release_cout [OF d] split: option.splits)
    qed
  qed
qed

theorem release_in_reverse_order_witness:
  "reverse_release (fst (main (example_host [example_hub, example_keyboard])
                            [''usb_reset'', ''413c:2003'']))
   \<and> released (fst (main (example_host [example_hub, example_keyboard])
                      [''usb_reset'', ''413c:2003'']))
       = [Handle 1, Snapshot, Session]"
proof -
  let ?h = "example_host [example_hub, example_keyboard]"
  let ?argv = "[''usb_reset'', ''413c:2003'']"
  have a: "acquired (fst (main ?h ?argv)) = [Session, Snapshot, Handle 1]"
    by (simp add: main_def example_parse reset_def DeviceList_ctor_def
          libusb_get_device_list_def example_host_def example_hub_def
          example_keyboard_def reset_loop.simps DeviceList_size_def DeviceList_index_def
          reset_matched_def read_strings_def libusb_get_string_descriptor_ascii_def
          c_string_def should_reset_def Let_def)
  show ?thesis
    using release_in_reverse_order [of ?h "(0, 0)" None None ?argv]
    by (simp add: reverse_release_def a)
qed

end
